theory Spec2Isabelle
  imports Main "HOL-Library.Word" "HOL-Library.Char_ord" "HOL-Library.List_Lexorder"
begin

section \<open>The incremental runner of isengard2 (\<^verbatim>\<open>src/isengard2/_runner.py\<close>)\<close>

text \<open>
  The development embeds the class \<^verbatim>\<open>Runner\<close>: its constructor, the run fingerprint, the
  \<^verbatim>\<open>clean\<close> traversal and the \<^verbatim>\<open>run\<close> traversal. Everything the runner calls but does not
  define (the target handlers, the rule bodies, \<^verbatim>\<open>sha256\<close>, \<^verbatim>\<open>pickle.dumps\<close>) is a field of a
  record of external operations, so every theorem holds for all of them. The fingerprint
  database is kept as an explicit store that is passed through the traversal.
\<close>

subsection \<open>Data\<close>

type_synonym bytes = "8 word list"

text \<open>A \<^verbatim>\<open>ResolvedTargetID\<close> is an opaque hashable identifier; it is kept as a string.\<close>

type_synonym target = string

text \<open>
  A \<^verbatim>\<open>ResolvedRule\<close>, as far as the runner reads it: \<^verbatim>\<open>id\<close>, \<^verbatim>\<open>resolved_inputs\<close>,
  \<^verbatim>\<open>resolved_outputs\<close> and \<^verbatim>\<open>needed_config\<close>. Its \<^verbatim>\<open>run\<close> method is the external operation
  \<open>rule_run\<close> below. Rules are compared by value.
\<close>

record rule =
  rule_id :: string
  resolved_inputs :: "target list"
  resolved_outputs :: "target list"
  needed_config :: "string set"

text \<open>
  The exceptions that leave the runner. The messages are kept as their parts: the target and
  the rule ids that the message of an \<^verbatim>\<open>IsengardUnknownTargetError\<close> cites, the rule ids that
  the message of an \<^verbatim>\<open>IsengardConsistencyError\<close> joins with \<^verbatim>\<open>" -> "\<close>, the rule id and the
  text of the cause of an \<^verbatim>\<open>IsengardRunError\<close>. \<open>KeyError\<close> is a failed dictionary lookup
  that the source does not catch, \<open>RecursionError\<close> is what the interpreter raises when the
  nesting of calls exceeds its limit, and \<open>OtherError\<close> is any other exception. An
  external operation may raise any of them.
\<close>

datatype error =
    IsengardUnknownTargetError target "string list"
  | IsengardConsistencyError "string list"
  | IsengardRunError string error
  | KeyError string
  | RecursionError
  | OtherError string

text \<open>
  The external calls of a traversal, in the order in which they are made, each with the
  rule on whose behalf it is made.
\<close>

datatype event =
    Fetch rule bytes
  | Cook rule target "bytes option"
  | GetHandler rule target
  | NeedRebuild rule target bytes
  | RuleRun rule "error option"
  | ComputeFingerprint rule target
  | Commit rule bytes "(target \<times> bytes) list"
  | Clean rule target "error option"

text \<open>
  The operations the runner calls and does not define. \<open>'w\<close> is the state of the world
  outside the runner (the file system), \<open>'c\<close> a cooked target, \<open>'h\<close> a target handler, \<open>'v\<close> a
  configuration value. An operation that returns a sum raises the exception on the left.
  \<open>rule_run\<close> and \<open>handler_clean\<close> change the world and return the exception they raise, if
  any.
\<close>

record ('w, 'c, 'h, 'v) externals =
  sha256 :: "bytes \<Rightarrow> bytes"
  pickle_dumps :: "'v \<Rightarrow> bytes"
  cook_target :: "target \<Rightarrow> bytes option \<Rightarrow> 'w \<Rightarrow> error + ('c \<times> 'h)"
  get_handler :: "target \<Rightarrow> error + 'h"
  ON_DISK_TARGET :: "'h \<Rightarrow> bool"
  need_rebuild :: "'h \<Rightarrow> 'c \<Rightarrow> bytes \<Rightarrow> 'w \<Rightarrow> error + bool"
  compute_fingerprint :: "'h \<Rightarrow> 'c \<Rightarrow> 'w \<Rightarrow> error + bytes option"
  handler_clean :: "'h \<Rightarrow> 'c \<Rightarrow> 'w \<Rightarrow> error option \<times> 'w"
  rule_run :: "rule \<Rightarrow> 'c list \<Rightarrow> 'c list \<Rightarrow> (string \<rightharpoonup> 'v) \<Rightarrow> 'w \<Rightarrow> error option \<times> 'w"

text \<open>
  Modelled from the spec: the fingerprint database \<^verbatim>\<open>DB\<close> of \<^verbatim>\<open>_db.py\<close>, which is not among
  the sources. A store maps a run fingerprint to the record of the last run under it;
  \<open>fetch_rule_previous_run\<close> returns the record or nothing, \<open>set_rule_previous_run\<close>
  overwrites the record for that fingerprint with the given pairs (a later pair for the same
  target wins, as in a dictionary built from them).
\<close>

type_synonym store = "bytes \<rightharpoonup> (target \<rightharpoonup> bytes)"

definition fetch_rule_previous_run :: "store \<Rightarrow> bytes \<Rightarrow> (target \<rightharpoonup> bytes) option" where
  "fetch_rule_previous_run st run_fingerprint = st run_fingerprint"

definition set_rule_previous_run :: "store \<Rightarrow> bytes \<Rightarrow> (target \<times> bytes) list \<Rightarrow> store" where
  "set_rule_previous_run st run_fingerprint target_fingerprints =
     st(run_fingerprint \<mapsto> map_of (rev target_fingerprints))"

text \<open>The runner object: the four attributes that \<^verbatim>\<open>__init__\<close> sets, and the externals.\<close>

record ('w, 'c, 'h, 'v) runner =
  target_to_rule :: "target \<rightharpoonup> rule"
  rules :: "(string \<times> rule) list"
  config :: "string \<rightharpoonup> 'v"
  ext :: "('w, 'c, 'h, 'v) externals"

text \<open>
  The state of one invocation: the store and the world, the two tables of \<^verbatim>\<open>run_rule\<close>
  (\<^verbatim>\<open>already_evaluated\<close>, \<^verbatim>\<open>targets_eval_cache\<close>), the set \<^verbatim>\<open>already_cleaned\<close> of \<^verbatim>\<open>clean\<close>, and
  the external calls made so far.
\<close>

record ('w, 'c, 'h) state =
  db :: store
  world :: 'w
  already_evaluated :: "rule \<rightharpoonup> bool"
  targets_eval_cache :: "target \<rightharpoonup> ('c \<times> 'h \<times> bool)"
  already_cleaned :: "rule set"
  events :: "event list"

definition init_state :: "store \<Rightarrow> 'w \<Rightarrow> ('w, 'c, 'h) state" where
  "init_state st w =
     \<lparr>db = st, world = w, already_evaluated = Map.empty, targets_eval_cache = Map.empty,
      already_cleaned = {}, events = []\<rparr>"

definition emit :: "event \<Rightarrow> ('w, 'c, 'h) state \<Rightarrow> ('w, 'c, 'h) state" where
  "emit e s = s\<lparr>events := events s @ [e]\<rparr>"

subsection \<open>\<^verbatim>\<open>Runner.__init__\<close>\<close>

text \<open>
  \<^verbatim>\<open>{output: rule for rule in rules.values() for output in rule.resolved_outputs}\<close>: the pairs
  are stored in the order of the comprehension, a later pair replacing an earlier one with
  the same key. There is no other statement about the rule set in the constructor.
\<close>

definition output_pairs :: "(string \<times> rule) list \<Rightarrow> (target \<times> rule) list" where
  "output_pairs rs = concat (map (\<lambda>r. map (\<lambda>output. (output, r)) (resolved_outputs r)) (map snd rs))"

definition build_target_to_rule :: "(string \<times> rule) list \<Rightarrow> (target \<rightharpoonup> rule)" where
  "build_target_to_rule rs = foldl (\<lambda>m (output, r). m(output \<mapsto> r)) Map.empty (output_pairs rs)"

definition Runner ::
  "(string \<times> rule) list \<Rightarrow> (string \<rightharpoonup> 'v) \<Rightarrow> ('w, 'c, 'h, 'v) externals \<Rightarrow> ('w, 'c, 'h, 'v) runner" where
  "Runner rs cfg X = \<lparr>target_to_rule = build_target_to_rule rs, rules = rs, config = cfg, ext = X\<rparr>"

subsection \<open>\<^verbatim>\<open>Runner._compute_run_fingerprint\<close>\<close>

text \<open>
  \<^verbatim>\<open>str.encode("utf8")\<close> for a string of code points below 256: one byte below 128, two bytes
  from 128 on.
\<close>

definition utf8_char :: "char \<Rightarrow> bytes" where
  "utf8_char c =
     (let n = (of_char c :: nat) in
      if n < 128 then [of_nat n] else [of_nat (192 + n div 64), of_nat (128 + n mod 64)])"

definition encode_utf8 :: "string \<Rightarrow> bytes" where
  "encode_utf8 s = concat (map utf8_char s)"

text \<open>
  The hash object is the message it has been fed so far. The loop
  \<^verbatim>\<open>for k in sorted(rule.needed_config): h.update(pickle_dumps(self.config[k]))\<close> appends the
  serialised value of each key, and nothing else; a key missing from the configuration is a
  \<^verbatim>\<open>KeyError\<close>.
\<close>

fun update_config ::
  "('v \<Rightarrow> bytes) \<Rightarrow> (string \<rightharpoonup> 'v) \<Rightarrow> string list \<Rightarrow> bytes \<Rightarrow> error + bytes" where
  "update_config dumps cfg [] h = Inr h"
| "update_config dumps cfg (k # ks) h =
     (case cfg k of
        None \<Rightarrow> Inl (KeyError k)
      | Some v \<Rightarrow> update_config dumps cfg ks (h @ dumps v))"

definition fingerprint_message ::
  "('v \<Rightarrow> bytes) \<Rightarrow> (string \<rightharpoonup> 'v) \<Rightarrow> rule \<Rightarrow> error + bytes" where
  "fingerprint_message dumps cfg r =
     update_config dumps cfg (sorted_list_of_set (needed_config r)) (encode_utf8 (rule_id r))"

definition compute_run_fingerprint :: "('w, 'c, 'h, 'v) runner \<Rightarrow> rule \<Rightarrow> error + bytes" where
  "compute_run_fingerprint rn r =
     (case fingerprint_message (pickle_dumps (ext rn)) (config rn) r of
        Inl e \<Rightarrow> Inl e
      | Inr h \<Rightarrow> Inr (sha256 (ext rn) h))"

subsection \<open>\<^verbatim>\<open>Runner.clean\<close>\<close>

text \<open>
  One turn of \<^verbatim>\<open>for target in rule.resolved_outputs\<close> in \<^verbatim>\<open>_clean\<close>. The call of
  \<^verbatim>\<open>cook_target\<close> with the previous fingerprint stands inside \<^verbatim>\<open>try ... except KeyError\<close>, so a
  \<^verbatim>\<open>KeyError\<close> that it raises is caught like the failed lookup, and the target is cooked with
  \<^verbatim>\<open>None\<close>. An exception of \<^verbatim>\<open>handler.clean\<close> is wrapped in an \<^verbatim>\<open>IsengardRunError\<close>.
\<close>

definition cook_for_clean ::
  "('w, 'c, 'h, 'v) runner \<Rightarrow> rule \<Rightarrow> (target \<rightharpoonup> bytes) \<Rightarrow> target \<Rightarrow> ('w, 'c, 'h) state \<Rightarrow>
   (error + ('c \<times> 'h)) \<times> ('w, 'c, 'h) state" where
  "cook_for_clean rn r targets_previous_fingerprint t s =
     (case targets_previous_fingerprint t of
        None \<Rightarrow> (cook_target (ext rn) t None (world s), emit (Cook r t None) s)
      | Some previous_fingerprint \<Rightarrow>
          (case cook_target (ext rn) t (Some previous_fingerprint) (world s) of
             Inl (KeyError k) \<Rightarrow>
               (cook_target (ext rn) t None (world s),
                emit (Cook r t None) (emit (Cook r t (Some previous_fingerprint)) s))
           | res \<Rightarrow> (res, emit (Cook r t (Some previous_fingerprint)) s)))"

definition clean_output ::
  "('w, 'c, 'h, 'v) runner \<Rightarrow> rule \<Rightarrow> (target \<rightharpoonup> bytes) \<Rightarrow> target \<Rightarrow> ('w, 'c, 'h) state \<Rightarrow>
   (error + unit) \<times> ('w, 'c, 'h) state" where
  "clean_output rn r targets_previous_fingerprint t s =
     (case cook_for_clean rn r targets_previous_fingerprint t s of
        (Inl e, s1) \<Rightarrow> (Inl e, s1)
      | (Inr (cooked, handler), s1) \<Rightarrow>
          (case handler_clean (ext rn) handler cooked (world s1) of
             (Some exc, w) \<Rightarrow>
               (Inl (IsengardRunError (rule_id r) exc), emit (Clean r t (Some exc)) (s1\<lparr>world := w\<rparr>))
           | (None, w) \<Rightarrow> (Inr (), emit (Clean r t None) (s1\<lparr>world := w\<rparr>))))"

fun clean_outputs ::
  "('w, 'c, 'h, 'v) runner \<Rightarrow> rule \<Rightarrow> (target \<rightharpoonup> bytes) \<Rightarrow> target list \<Rightarrow> ('w, 'c, 'h) state \<Rightarrow>
   (error + unit) \<times> ('w, 'c, 'h) state" where
  "clean_outputs rn r prev [] s = (Inr (), s)"
| "clean_outputs rn r prev (t # ts) s =
     (case clean_output rn r prev t s of
        (Inl e, s1) \<Rightarrow> (Inl e, s1)
      | (Inr u, s1) \<Rightarrow> clean_outputs rn r prev ts s1)"

text \<open>
  The loop \<^verbatim>\<open>for input_target in rule.resolved_inputs\<close> of \<^verbatim>\<open>_clean\<close>; \<open>rec\<close> is the recursive
  call \<^verbatim>\<open>_clean(sub_rule, sub_parent_rules)\<close>.
\<close>

fun clean_inputs ::
  "(rule \<Rightarrow> rule list \<Rightarrow> ('w, 'c, 'h) state \<Rightarrow> (error + unit) \<times> ('w, 'c, 'h) state) \<Rightarrow>
   ('w, 'c, 'h, 'v) runner \<Rightarrow> rule \<Rightarrow> rule list \<Rightarrow> target list \<Rightarrow> ('w, 'c, 'h) state \<Rightarrow>
   (error + unit) \<times> ('w, 'c, 'h) state" where
  "clean_inputs rec rn r parent_rules [] s = (Inr (), s)"
| "clean_inputs rec rn r parent_rules (input_target # ts) s =
     (let sub_parent_rules = parent_rules @ [r] in
      case target_to_rule rn input_target of
        None \<Rightarrow>
          (case get_handler (ext rn) input_target of
             Inl e \<Rightarrow> (Inl e, emit (GetHandler r input_target) s)
           | Inr input_handler \<Rightarrow>
               if \<not> ON_DISK_TARGET (ext rn) input_handler
               then (Inl (IsengardUnknownTargetError input_target (map rule_id sub_parent_rules)),
                     emit (GetHandler r input_target) s)
               else clean_inputs rec rn r parent_rules ts (emit (GetHandler r input_target) s))
      | Some sub_rule \<Rightarrow>
          if sub_rule \<in> set sub_parent_rules
          then (Inl (IsengardConsistencyError (map rule_id sub_parent_rules)), s)
          else (case rec sub_rule sub_parent_rules s of
                  (Inl e, s1) \<Rightarrow> (Inl e, s1)
                | (Inr u, s1) \<Rightarrow> clean_inputs rec rn r parent_rules ts s1))"

text \<open>
  \<^verbatim>\<open>_clean\<close>. The first argument is the number of nested calls the interpreter still allows:
  at 0 the call raises \<^verbatim>\<open>RecursionError\<close>.
\<close>

fun inner_clean ::
  "nat \<Rightarrow> ('w, 'c, 'h, 'v) runner \<Rightarrow> rule \<Rightarrow> rule list \<Rightarrow> ('w, 'c, 'h) state \<Rightarrow>
   (error + unit) \<times> ('w, 'c, 'h) state" where
  "inner_clean 0 rn r parent_rules s = (Inl RecursionError, s)"
| "inner_clean (Suc depth) rn r parent_rules s =
     (if r \<in> already_cleaned s then (Inr (), s)
      else
        let s1 = s\<lparr>already_cleaned := insert r (already_cleaned s)\<rparr> in
        case compute_run_fingerprint rn r of
          Inl e \<Rightarrow> (Inl e, s1)
        | Inr run_fingerprint \<Rightarrow>
            let s2 = emit (Fetch r run_fingerprint) s1;
                targets_previous_fingerprint =
                  (case fetch_rule_previous_run (db s2) run_fingerprint of
                     None \<Rightarrow> Map.empty
                   | Some m \<Rightarrow> m)
            in
            (case clean_outputs rn r targets_previous_fingerprint (resolved_outputs r) s2 of
               (Inl e, s3) \<Rightarrow> (Inl e, s3)
             | (Inr u, s3) \<Rightarrow>
                 clean_inputs (inner_clean depth rn) rn r parent_rules (resolved_inputs r) s3))"

definition clean ::
  "nat \<Rightarrow> ('w, 'c, 'h, 'v) runner \<Rightarrow> target \<Rightarrow> store \<Rightarrow> 'w \<Rightarrow> (error + unit) \<times> ('w, 'c, 'h) state" where
  "clean depth rn t st w =
     (case target_to_rule rn t of
        None \<Rightarrow> (Inl (IsengardUnknownTargetError t []), init_state st w)
      | Some r \<Rightarrow> inner_clean depth rn r [] (init_state st w))"

subsection \<open>\<^verbatim>\<open>Runner.run\<close> and \<^verbatim>\<open>Runner.run_rule\<close>\<close>

text \<open>
  \<^verbatim>\<open>if previous_fingerprint is not None: handler.need_rebuild(cooked, previous_fingerprint)
  else: True\<close>, as it stands for an input and for an output.
\<close>

definition has_changed ::
  "('w, 'c, 'h, 'v) runner \<Rightarrow> rule \<Rightarrow> target \<Rightarrow> 'h \<Rightarrow> 'c \<Rightarrow> bytes option \<Rightarrow> ('w, 'c, 'h) state \<Rightarrow>
   (error + bool) \<times> ('w, 'c, 'h) state" where
  "has_changed rn r t handler cooked previous_fingerprint s =
     (case previous_fingerprint of
        None \<Rightarrow> (Inr True, s)
      | Some fp \<Rightarrow> (need_rebuild (ext rn) handler cooked fp (world s), emit (NeedRebuild r t fp) s))"

text \<open>
  Step 2 for an input that no rule produces. The accumulator is \<^verbatim>\<open>rebuild_needed\<close> and
  \<^verbatim>\<open>to_cache_targets\<close>. The input is cooked before its handler is asked for
  \<^verbatim>\<open>ON_DISK_TARGET\<close>, and \<^verbatim>\<open>targets_eval_cache\<close> is written, never read, here.
\<close>

definition eval_source_input ::
  "('w, 'c, 'h, 'v) runner \<Rightarrow> rule \<Rightarrow> (target \<rightharpoonup> bytes) \<Rightarrow> target \<Rightarrow> bool \<times> target list \<Rightarrow>
   ('w, 'c, 'h) state \<Rightarrow> (error + bool \<times> target list) \<times> ('w, 'c, 'h) state" where
  "eval_source_input rn r targets_previous_fingerprint input_target acc s =
     (let input_previous_fingerprint = targets_previous_fingerprint input_target;
          s1 = emit (Cook r input_target input_previous_fingerprint) s
      in
      case cook_target (ext rn) input_target input_previous_fingerprint (world s) of
        Inl e \<Rightarrow> (Inl e, s1)
      | Inr (input_cooked, input_handler) \<Rightarrow>
          if \<not> ON_DISK_TARGET (ext rn) input_handler
          then (Inl (IsengardUnknownTargetError input_target [rule_id r]), s1)
          else
            (case has_changed rn r input_target input_handler input_cooked
                    input_previous_fingerprint s1 of
               (Inl e, s2) \<Rightarrow> (Inl e, s2)
             | (Inr input_has_changed, s2) \<Rightarrow>
                 (Inr (fst acc \<or> input_has_changed, snd acc @ [input_target]),
                  s2\<lparr>targets_eval_cache := (targets_eval_cache s2)
                       (input_target \<mapsto> (input_cooked, input_handler, input_has_changed))\<rparr>)))"

text \<open>
  The loop of step 2; \<open>rec\<close> is the recursive call \<^verbatim>\<open>_run(subrule)\<close>, whose result is or-ed
  into \<^verbatim>\<open>rebuild_needed\<close>.
\<close>

fun eval_inputs ::
  "(rule \<Rightarrow> ('w, 'c, 'h) state \<Rightarrow> (error + bool) \<times> ('w, 'c, 'h) state) \<Rightarrow>
   ('w, 'c, 'h, 'v) runner \<Rightarrow> rule \<Rightarrow> (target \<rightharpoonup> bytes) \<Rightarrow> target list \<Rightarrow> bool \<times> target list \<Rightarrow>
   ('w, 'c, 'h) state \<Rightarrow> (error + bool \<times> target list) \<times> ('w, 'c, 'h) state" where
  "eval_inputs rec rn r prev [] acc s = (Inr acc, s)"
| "eval_inputs rec rn r prev (input_target # ts) acc s =
     (case target_to_rule rn input_target of
        None \<Rightarrow>
          (case eval_source_input rn r prev input_target acc s of
             (Inl e, s1) \<Rightarrow> (Inl e, s1)
           | (Inr acc1, s1) \<Rightarrow> eval_inputs rec rn r prev ts acc1 s1)
      | Some subrule \<Rightarrow>
          (case rec subrule s of
             (Inl e, s1) \<Rightarrow> (Inl e, s1)
           | (Inr rebuilt, s1) \<Rightarrow> eval_inputs rec rn r prev ts (fst acc \<or> rebuilt, snd acc) s1))"

text \<open>
  Step 3, one output. The accumulator is \<^verbatim>\<open>rebuild_needed\<close>, \<^verbatim>\<open>to_cache_targets\<close> and
  \<^verbatim>\<open>outputs_cooked\<close>.
\<close>

definition eval_output ::
  "('w, 'c, 'h, 'v) runner \<Rightarrow> rule \<Rightarrow> (target \<rightharpoonup> bytes) \<Rightarrow> target \<Rightarrow> bool \<times> target list \<times> 'c list \<Rightarrow>
   ('w, 'c, 'h) state \<Rightarrow> (error + bool \<times> target list \<times> 'c list) \<times> ('w, 'c, 'h) state" where
  "eval_output rn r targets_previous_fingerprint output_target acc s =
     (let output_previous_fingerprint = targets_previous_fingerprint output_target;
          s1 = emit (Cook r output_target output_previous_fingerprint) s
      in
      case cook_target (ext rn) output_target output_previous_fingerprint (world s) of
        Inl e \<Rightarrow> (Inl e, s1)
      | Inr (output_cooked, output_handler) \<Rightarrow>
          (case has_changed rn r output_target output_handler output_cooked
                  output_previous_fingerprint s1 of
             (Inl e, s2) \<Rightarrow> (Inl e, s2)
           | (Inr output_has_changed, s2) \<Rightarrow>
               (Inr (fst acc \<or> output_has_changed, fst (snd acc) @ [output_target],
                     snd (snd acc) @ [output_cooked]),
                s2\<lparr>targets_eval_cache := (targets_eval_cache s2)
                     (output_target \<mapsto> (output_cooked, output_handler, output_has_changed))\<rparr>)))"

fun eval_outputs ::
  "('w, 'c, 'h, 'v) runner \<Rightarrow> rule \<Rightarrow> (target \<rightharpoonup> bytes) \<Rightarrow> target list \<Rightarrow> bool \<times> target list \<times> 'c list \<Rightarrow>
   ('w, 'c, 'h) state \<Rightarrow> (error + bool \<times> target list \<times> 'c list) \<times> ('w, 'c, 'h) state" where
  "eval_outputs rn r prev [] acc s = (Inr acc, s)"
| "eval_outputs rn r prev (output_target # ts) acc s =
     (case eval_output rn r prev output_target acc s of
        (Inl e, s1) \<Rightarrow> (Inl e, s1)
      | (Inr acc1, s1) \<Rightarrow> eval_outputs rn r prev ts acc1 s1)"

text \<open>\<^verbatim>\<open>[targets_eval_cache[t][0] for t in rule.resolved_inputs]\<close>.\<close>

fun lookup_cooked :: "(target \<rightharpoonup> ('c \<times> 'h \<times> bool)) \<Rightarrow> target list \<Rightarrow> error + 'c list" where
  "lookup_cooked cache [] = Inr []"
| "lookup_cooked cache (t # ts) =
     (case cache t of
        None \<Rightarrow> Inl (KeyError t)
      | Some entry \<Rightarrow>
          (case lookup_cooked cache ts of
             Inl e \<Rightarrow> Inl e
           | Inr cs \<Rightarrow> Inr (fst entry # cs)))"

text \<open>
  Step 6, the loop \<^verbatim>\<open>for target in to_cache_targets\<close>: a target whose fingerprint is \<^verbatim>\<open>None\<close>
  is left out of \<^verbatim>\<open>target_fingerprints\<close>.
\<close>

fun fingerprint_targets ::
  "('w, 'c, 'h, 'v) runner \<Rightarrow> rule \<Rightarrow> bool \<Rightarrow> target list \<Rightarrow> (target \<times> bytes) list \<Rightarrow>
   ('w, 'c, 'h) state \<Rightarrow> (error + (target \<times> bytes) list) \<times> ('w, 'c, 'h) state" where
  "fingerprint_targets rn r rebuild_needed [] target_fingerprints s = (Inr target_fingerprints, s)"
| "fingerprint_targets rn r rebuild_needed (t # ts) target_fingerprints s =
     (case targets_eval_cache s t of
        None \<Rightarrow> (Inl (KeyError t), s)
      | Some (target_cooked, target_handler, changed) \<Rightarrow>
          (case compute_fingerprint (ext rn) target_handler target_cooked (world s) of
             Inl e \<Rightarrow> (Inl e, emit (ComputeFingerprint r t) s)
           | Inr target_fingerprint \<Rightarrow>
               fingerprint_targets rn r rebuild_needed ts
                 (case target_fingerprint of
                    None \<Rightarrow> target_fingerprints
                  | Some fp \<Rightarrow> target_fingerprints @ [(t, fp)])
                 ((emit (ComputeFingerprint r t) s)
                    \<lparr>targets_eval_cache := (targets_eval_cache s)
                       (t \<mapsto> (target_cooked, target_handler, rebuild_needed))\<rparr>)))"

text \<open>
  Steps 5 and 6: the rule body is called, an exception of it is wrapped in an
  \<^verbatim>\<open>IsengardRunError\<close>, and after the body has returned the fingerprints are computed and
  \<^verbatim>\<open>db.set_rule_previous_run\<close> is called.
\<close>

definition execute_rule ::
  "('w, 'c, 'h, 'v) runner \<Rightarrow> rule \<Rightarrow> bytes \<Rightarrow> 'c list \<Rightarrow> target list \<Rightarrow> ('w, 'c, 'h) state \<Rightarrow>
   (error + bool) \<times> ('w, 'c, 'h) state" where
  "execute_rule rn r run_fingerprint outputs_cooked to_cache_targets s =
     (case lookup_cooked (targets_eval_cache s) (resolved_inputs r) of
        Inl e \<Rightarrow> (Inl e, s)
      | Inr inputs_cooked \<Rightarrow>
          (case rule_run (ext rn) r outputs_cooked inputs_cooked (config rn) (world s) of
             (Some exc, w) \<Rightarrow>
               (Inl (IsengardRunError (rule_id r) exc), emit (RuleRun r (Some exc)) (s\<lparr>world := w\<rparr>))
           | (None, w) \<Rightarrow>
               (case fingerprint_targets rn r True to_cache_targets []
                       (emit (RuleRun r None) (s\<lparr>world := w\<rparr>)) of
                  (Inl e, s1) \<Rightarrow> (Inl e, s1)
                | (Inr target_fingerprints, s1) \<Rightarrow>
                    (Inr True,
                     emit (Commit r run_fingerprint target_fingerprints)
                       (s1\<lparr>db := set_rule_previous_run (db s1) run_fingerprint
                                   target_fingerprints\<rparr>)))))"

text \<open>
  \<^verbatim>\<open>_run\<close>. The first argument is the number of nested calls the interpreter still allows:
  at 0 the call raises \<^verbatim>\<open>RecursionError\<close>. There is no path of rules here, and no test for a
  rule that is being evaluated: \<^verbatim>\<open>already_evaluated\<close> is written after the inputs and the
  outputs of the rule have been evaluated.
\<close>

fun inner_run ::
  "nat \<Rightarrow> ('w, 'c, 'h, 'v) runner \<Rightarrow> rule \<Rightarrow> ('w, 'c, 'h) state \<Rightarrow>
   (error + bool) \<times> ('w, 'c, 'h) state" where
  "inner_run 0 rn r s = (Inl RecursionError, s)"
| "inner_run (Suc depth) rn r s =
     (case already_evaluated s r of
        Some rebuilt \<Rightarrow> (Inr rebuilt, s)
      | None \<Rightarrow>
          (case compute_run_fingerprint rn r of
             Inl e \<Rightarrow> (Inl e, s)
           | Inr run_fingerprint \<Rightarrow>
               let s1 = emit (Fetch r run_fingerprint) s;
                   fetched = fetch_rule_previous_run (db s) run_fingerprint;
                   rebuild_needed = (fetched = None);
                   targets_previous_fingerprint = (case fetched of None \<Rightarrow> Map.empty | Some m \<Rightarrow> m)
               in
               (case eval_inputs (inner_run depth rn) rn r targets_previous_fingerprint
                       (resolved_inputs r) (rebuild_needed, []) s1 of
                  (Inl e, s2) \<Rightarrow> (Inl e, s2)
                | (Inr acc2, s2) \<Rightarrow>
                    (case eval_outputs rn r targets_previous_fingerprint (resolved_outputs r)
                            (fst acc2, snd acc2, []) s2 of
                       (Inl e, s3) \<Rightarrow> (Inl e, s3)
                     | (Inr acc3, s3) \<Rightarrow>
                         let s4 = s3\<lparr>already_evaluated := (already_evaluated s3)(r \<mapsto> fst acc3)\<rparr> in
                         if \<not> fst acc3 then (Inr False, s4)
                         else execute_rule rn r run_fingerprint (snd (snd acc3)) (fst (snd acc3)) s4))))"

definition run_rule ::
  "nat \<Rightarrow> ('w, 'c, 'h, 'v) runner \<Rightarrow> rule \<Rightarrow> store \<Rightarrow> 'w \<Rightarrow> (error + bool) \<times> ('w, 'c, 'h) state" where
  "run_rule depth rn r st w = inner_run depth rn r (init_state st w)"

definition run ::
  "nat \<Rightarrow> ('w, 'c, 'h, 'v) runner \<Rightarrow> target \<Rightarrow> store \<Rightarrow> 'w \<Rightarrow> (error + bool) \<times> ('w, 'c, 'h) state" where
  "run depth rn t st w =
     (case target_to_rule rn t of
        None \<Rightarrow> (Inl (IsengardUnknownTargetError t []), init_state st w)
      | Some r \<Rightarrow> run_rule depth rn r st w)"

subsection \<open>What the fingerprint digests\<close>

text \<open>
  The message that \<^verbatim>\<open>_compute_run_fingerprint\<close> feeds to the hash when every needed key is in
  the configuration: the encoded rule id, then the serialised values in the order of the
  sorted keys.
\<close>

definition digest_input :: "('w, 'c, 'h, 'v) runner \<Rightarrow> rule \<Rightarrow> bytes" where
  "digest_input rn r =
     encode_utf8 (rule_id r) @
     concat (map (\<lambda>k. pickle_dumps (ext rn) (the (config rn k)))
       (sorted_list_of_set (needed_config r)))"

section \<open>Example rule sets and externals\<close>

text \<open>
  A small world for the concrete runs below: the world maps a target to the content of its
  file, a cooked target is the target itself, the fingerprint of a target is its content,
  and a rule body writes the byte 1 to each of its outputs. The handler \<open>True\<close> is the one
  of on-disk targets; only \<^verbatim>\<open>missing_virtual\<close> has the other one. \<open>pad32\<close> stands in for
  the hash: it pads or cuts the message to 32 bytes.
\<close>

definition pad32 :: "bytes \<Rightarrow> bytes" where
  "pad32 m = take 32 (m @ replicate 32 0)"

definition disk_ext :: "(target \<rightharpoonup> bytes, target, bool, 8 word) externals" where
  "disk_ext =
     \<lparr>sha256 = pad32,
      pickle_dumps = (\<lambda>v. [v]),
      cook_target = (\<lambda>t prev w. Inr (t, t \<noteq> ''missing_virtual'')),
      get_handler = (\<lambda>t. Inr (t \<noteq> ''missing_virtual'')),
      ON_DISK_TARGET = (\<lambda>h. h),
      need_rebuild = (\<lambda>h c fp w. Inr (w c \<noteq> Some fp)),
      compute_fingerprint = (\<lambda>h c w. Inr (w c)),
      handler_clean = (\<lambda>h c w. (None, w(c := None))),
      rule_run = (\<lambda>r outs ins cfg w. (None, fold (\<lambda>out w'. w'(out \<mapsto> [1])) outs w))\<rparr>"

text \<open>One rule under two names of its configuration key.\<close>

definition rule_key_a :: rule where
  "rule_key_a =
     \<lparr>rule_id = ''R'', resolved_inputs = [], resolved_outputs = [''out''], needed_config = {''a''}\<rparr>"

definition rule_key_b :: rule where
  "rule_key_b =
     \<lparr>rule_id = ''R'', resolved_inputs = [], resolved_outputs = [''out''], needed_config = {''b''}\<rparr>"

definition runner_key_a :: "(target \<rightharpoonup> bytes, target, bool, 8 word) runner" where
  "runner_key_a = Runner [(''R'', rule_key_a)] [''a'' \<mapsto> 1] disk_ext"

definition runner_key_b :: "(target \<rightharpoonup> bytes, target, bool, 8 word) runner" where
  "runner_key_b = Runner [(''R'', rule_key_b)] [''b'' \<mapsto> 1] disk_ext"

text \<open>The cycle of the specification: \<^verbatim>\<open>A: [b_out] -> a_out\<close>, \<^verbatim>\<open>B: [a_out] -> b_out\<close>.\<close>

definition cycA :: rule where
  "cycA =
     \<lparr>rule_id = ''A'', resolved_inputs = [''b_out''], resolved_outputs = [''a_out''], needed_config = {}\<rparr>"

definition cycB :: rule where
  "cycB =
     \<lparr>rule_id = ''B'', resolved_inputs = [''a_out''], resolved_outputs = [''b_out''], needed_config = {}\<rparr>"

definition cyclic_rules :: "(string \<times> rule) list" where
  "cyclic_rules = [(''A'', cycA), (''B'', cycB)]"

text \<open>Two rules that declare the same output.\<close>

definition dup_first :: rule where
  "dup_first =
     \<lparr>rule_id = ''first'', resolved_inputs = [], resolved_outputs = [''out''], needed_config = {}\<rparr>"

definition dup_second :: rule where
  "dup_second =
     \<lparr>rule_id = ''second'', resolved_inputs = [], resolved_outputs = [''out''], needed_config = {}\<rparr>"

definition dup_runner :: "(target \<rightharpoonup> bytes, target, bool, 8 word) runner" where
  "dup_runner = Runner [(''first'', dup_first), (''second'', dup_second)] Map.empty disk_ext"

subsection \<open>The rule graph\<close>

text \<open>
  \<open>depends rn r q\<close>: some input of \<open>r\<close> is owned by \<open>q\<close>. The rules reachable from \<open>r\<close> are
  those related to it by the reflexive transitive closure.
\<close>

definition depends :: "('w, 'c, 'h, 'v) runner \<Rightarrow> rule \<Rightarrow> rule \<Rightarrow> bool" where
  "depends rn r q \<longleftrightarrow> (\<exists>t \<in> set (resolved_inputs r). target_to_rule rn t = Some q)"

text \<open>
  What a stretch of a \<open>clean\<close> traversal that starts at the rule \<open>r\<close> may do: every call of
  \<^verbatim>\<open>handler.clean\<close> in it is made for a rule reachable from \<open>r\<close>, on one of its outputs.
\<close>

definition cleans_within ::
  "('w, 'c, 'h, 'v) runner \<Rightarrow> rule \<Rightarrow> ('w, 'c, 'h) state \<Rightarrow> ('w, 'c, 'h) state \<Rightarrow> bool" where
  "cleans_within rn r s s' \<longleftrightarrow>
     (\<exists>es. events s' = events s @ es \<and>
        (\<forall>q x e. Clean q x e \<in> set es \<longrightarrow>
           (depends rn)\<^sup>*\<^sup>* r q \<and> x \<in> set (resolved_outputs q)))"

text \<open>
  Every rule that \<open>clean\<close> has entered has had \<^verbatim>\<open>handler.clean\<close> called, without an
  exception, on each of its outputs.
\<close>

definition entered_rules_cleaned :: "('w, 'c, 'h) state \<Rightarrow> bool" where
  "entered_rules_cleaned s \<longleftrightarrow>
     (\<forall>q \<in> already_cleaned s. \<forall>x \<in> set (resolved_outputs q). Clean q x None \<in> set (events s))"

text \<open>
  The outcomes of \<open>clean\<close> after which the traversal went on or stopped at a cycle, and the
  externals whose \<^verbatim>\<open>cook_target\<close> does not itself raise \<^verbatim>\<open>IsengardConsistencyError\<close>.
\<close>

definition no_cook_consistency_error :: "('w, 'c, 'h, 'v) runner \<Rightarrow> bool" where
  "no_cook_consistency_error rn \<longleftrightarrow>
     (\<forall>t p w c. cook_target (ext rn) t p w \<noteq> Inl (IsengardConsistencyError c))"

definition ok_or_cycle :: "error + unit \<Rightarrow> bool" where
  "ok_or_cycle res \<longleftrightarrow> (case res of Inr u \<Rightarrow> True | Inl (IsengardConsistencyError c) \<Rightarrow> True | Inl e \<Rightarrow> False)"

text \<open>
  The build of the specification: \<^verbatim>\<open>A: [src.txt] -> out.o\<close>, \<^verbatim>\<open>B: [out.o] -> app\<close>, where \<^verbatim>\<open>B\<close>
  needs the key \<^verbatim>\<open>opt_level\<close>, and a world in which only \<^verbatim>\<open>src.txt\<close> exists.
\<close>

definition build_A :: rule where
  "build_A = \<lparr>rule_id = ''A'', resolved_inputs = [''src.txt''], resolved_outputs = [''out.o''], needed_config = {}\<rparr>"

definition build_B :: rule where
  "build_B = \<lparr>rule_id = ''B'', resolved_inputs = [''out.o''], resolved_outputs = [''app''], needed_config = {''opt_level''}\<rparr>"

definition build_runner :: "(target \<rightharpoonup> bytes, target, bool, 8 word) runner" where
  "build_runner = Runner [(''A'', build_A), (''B'', build_B)] [''opt_level'' \<mapsto> 0] disk_ext"

definition src_world :: "target \<rightharpoonup> bytes" where
  "src_world = [''src.txt'' \<mapsto> [7]]"

section \<open>Properties\<close>

subsection \<open>The run fingerprint\<close>

lemma update_config_find:
  "update_config dumps cfg ks h =
     (case find (\<lambda>k. cfg k = None) ks of
        Some k \<Rightarrow> Inl (KeyError k)
      | None \<Rightarrow> Inr (h @ concat (map (\<lambda>k. dumps (the (cfg k))) ks)))"
  by (induction ks arbitrary: h) (auto split: option.splits)

lemma update_config_agree:
  "\<forall>k \<in> set ks. c1 k = c2 k \<Longrightarrow> update_config dumps c1 ks h = update_config dumps c2 ks h"
  by (induction ks arbitrary: h) (auto split: option.splits)

lemma length_pad32: "length (pad32 m) = 32"
  by (simp add: pad32_def)

text \<open>
  C3, as the code has it. The claim says that the digest is derived from the rule id and the
  (key, serialised value) pairs of the needed keys, the key names being part of the digested
  input. The code feeds the hash the encoded rule id and then, for each needed key in sorted
  order, the serialised value only: the fingerprint is the hash of \<open>digest_input\<close>, where the
  keys fix the order of the values and are not themselves digested; a needed key that is
  missing from the configuration raises \<^verbatim>\<open>KeyError\<close> for the first such key. The digest has
  32 bytes when the hash returns 32 bytes.
\<close>

theorem run_fingerprint_digests_values:
  "compute_run_fingerprint rn r =
     (case find (\<lambda>k. config rn k = None) (sorted_list_of_set (needed_config r)) of
        Some k \<Rightarrow> Inl (KeyError k)
      | None \<Rightarrow> Inr (sha256 (ext rn) (digest_input rn r)))
   \<and> ((\<forall>m. length (sha256 (ext rn) m) = 32) \<longrightarrow>
        (\<forall>fp. compute_run_fingerprint rn r = Inr fp \<longrightarrow> length fp = 32))"
  by (auto simp: compute_run_fingerprint_def fingerprint_message_def update_config_find
      digest_input_def split: option.splits sum.splits)

theorem run_fingerprint_digests_values_witness:
  "(\<forall>m. length (sha256 (ext runner_key_a) m) = 32)
   \<and> compute_run_fingerprint runner_key_a rule_key_a = Inr (pad32 [82, 1])
   \<and> length (pad32 [82, 1]) = 32"
proof -
  have sha: "\<forall>m. length (sha256 (ext runner_key_a) m) = 32"
    by (simp add: runner_key_a_def Runner_def disk_ext_def length_pad32)
  have fp: "compute_run_fingerprint runner_key_a rule_key_a = Inr (pad32 [82, 1])"
    by (simp add: compute_run_fingerprint_def fingerprint_message_def runner_key_a_def
        Runner_def disk_ext_def rule_key_a_def encode_utf8_def utf8_char_def)
  from run_fingerprint_digests_values [of runner_key_a rule_key_a] sha fp
  have "length (pad32 [82, 1]) = 32" by blast
  with sha fp show ?thesis by blast
qed

text \<open>
  The key names are not digested: the rule \<^verbatim>\<open>R\<close> that needs the key \<^verbatim>\<open>a\<close> under the
  configuration \<^verbatim>\<open>{a: 1}\<close> and the rule \<^verbatim>\<open>R\<close> that needs the key \<^verbatim>\<open>b\<close> under \<^verbatim>\<open>{b: 1}\<close> feed the
  hash the same message, the byte of \<^verbatim>\<open>R\<close> and the serialised 1.
\<close>

theorem key_names_not_digested:
  "fingerprint_message (pickle_dumps disk_ext) [''a'' \<mapsto> 1] rule_key_a = Inr [82, 1]
   \<and> fingerprint_message (pickle_dumps disk_ext) [''b'' \<mapsto> 1] rule_key_b = Inr [82, 1]
   \<and> compute_run_fingerprint runner_key_a rule_key_a = compute_run_fingerprint runner_key_b rule_key_b"
  by (simp add: compute_run_fingerprint_def fingerprint_message_def runner_key_a_def
      runner_key_b_def Runner_def disk_ext_def rule_key_a_def rule_key_b_def encode_utf8_def
      utf8_char_def)

subsection \<open>The constructor\<close>

lemma foldl_update_map_of:
  "foldl (\<lambda>m (k, v). m(k \<mapsto> v)) m0 ps = m0 ++ map_of (rev ps)"
  by (induction ps arbitrary: m0) (auto simp: map_add_def fun_eq_iff split: option.splits)

lemma map_of_rev_output_pairs:
  "map_of (rev (output_pairs rs)) t =
     find (\<lambda>r. t \<in> set (resolved_outputs r)) (rev (map snd rs))"
proof (induction rs rule: rev_induct)
  case Nil
  show ?case by (simp add: output_pairs_def)
next
  case (snoc x rs)
  have own: "map_of (rev (map (\<lambda>output. (output, r)) outs)) t =
      (if t \<in> set outs then Some r else None)" for r :: rule and outs
    by (induction outs) (auto simp: map_add_def split: option.splits)
  show ?case using snoc
    by (auto simp: output_pairs_def map_add_def own rev_map[symmetric] split: option.splits)
qed

lemma target_to_rule_find:
  "target_to_rule (Runner rs cfg X) t =
     find (\<lambda>r. t \<in> set (resolved_outputs r)) (rev (map snd rs))"
  by (simp add: Runner_def build_target_to_rule_def foldl_update_map_of map_of_rev_output_pairs)

lemma find_Some_set: "find P xs = Some x \<Longrightarrow> x \<in> set xs \<and> P x"
  by (induction xs) (auto split: if_splits)

lemma target_to_rule_owner:
  assumes "target_to_rule (Runner rs cfg X) t = Some r"
  shows "r \<in> snd ` set rs" and "t \<in> set (resolved_outputs r)"
  using find_Some_set[of "\<lambda>r. t \<in> set (resolved_outputs r)" "rev (map snd rs)" r] assms
  by (auto simp: target_to_rule_find)

lemma target_to_rule_defined:
  assumes "r \<in> snd ` set rs" and "t \<in> set (resolved_outputs r)"
  shows "target_to_rule (Runner rs cfg X) t \<noteq> None"
  using assms by (auto simp: target_to_rule_find find_None_iff)

lemma runner_fields [simp]:
  "config (Runner rs cfg X) = cfg" "ext (Runner rs cfg X) = X" "rules (Runner rs cfg X) = rs"
  by (simp_all add: Runner_def)

text \<open>
  The unfoldings that evaluate a traversal of a concrete runner.
\<close>

lemmas traversal_defs =
  run_def run_rule_def clean_def init_state_def emit_def Let_def
  compute_run_fingerprint_def fingerprint_message_def encode_utf8_def utf8_char_def
  fetch_rule_previous_run_def set_rule_previous_run_def
  eval_source_input_def eval_output_def has_changed_def execute_rule_def
  cook_for_clean_def clean_output_def

text \<open>
  C2, as the code has it. The claim says that a rule set in which two rules declare the
  same output is rejected before any traversal. The constructor has no such test: for every
  rule set it builds \<open>target_to_rule\<close> without raising, a target declared by several rules
  is owned by the one that comes last in the rule dictionary, and \<open>run\<close> and \<open>clean\<close> then
  start their traversal from that rule.
\<close>

theorem constructor_last_rule_owns:
  "target_to_rule (Runner rs cfg X) t =
     find (\<lambda>r. t \<in> set (resolved_outputs r)) (rev (map snd rs))
   \<and> run depth (Runner rs cfg X) t st w =
     (case find (\<lambda>r. t \<in> set (resolved_outputs r)) (rev (map snd rs)) of
        None \<Rightarrow> (Inl (IsengardUnknownTargetError t []), init_state st w)
      | Some r \<Rightarrow> run_rule depth (Runner rs cfg X) r st w)
   \<and> clean depth (Runner rs cfg X) t st w =
     (case find (\<lambda>r. t \<in> set (resolved_outputs r)) (rev (map snd rs)) of
        None \<Rightarrow> (Inl (IsengardUnknownTargetError t []), init_state st w)
      | Some r \<Rightarrow> inner_clean depth (Runner rs cfg X) r [] (init_state st w))"
  by (simp add: run_def clean_def target_to_rule_find)

text \<open>
  With the two rules \<^verbatim>\<open>first\<close> and \<^verbatim>\<open>second\<close> that both declare \<^verbatim>\<open>out\<close>, \<open>run\<close> calls the
  body of \<^verbatim>\<open>second\<close> and commits, and \<open>clean\<close> calls \<^verbatim>\<open>handler.clean\<close> on \<^verbatim>\<open>out\<close>.
\<close>

theorem duplicate_outputs_are_traversed:
  "target_to_rule dup_runner ''out'' = Some dup_second
   \<and> fst (run 3 dup_runner ''out'' Map.empty Map.empty) = Inr True
   \<and> events (snd (run 3 dup_runner ''out'' Map.empty Map.empty)) =
       [Fetch dup_second (pad32 (encode_utf8 ''second'')),
        Cook dup_second ''out'' None,
        RuleRun dup_second None,
        ComputeFingerprint dup_second ''out'',
        Commit dup_second (pad32 (encode_utf8 ''second'')) [(''out'', [1])]]
   \<and> fst (clean 3 dup_runner ''out'' Map.empty Map.empty) = Inr ()
   \<and> events (snd (clean 3 dup_runner ''out'' Map.empty Map.empty)) =
       [Fetch dup_second (pad32 (encode_utf8 ''second'')),
        Cook dup_second ''out'' None,
        Clean dup_second ''out'' None]"
proof -
  have ttr: "target_to_rule dup_runner ''out'' = Some dup_second"
    by (simp add: dup_runner_def target_to_rule_find dup_first_def dup_second_def)
  have io: "resolved_inputs dup_second = []" "resolved_outputs dup_second = [''out'']"
    "rule_id dup_second = ''second''" "needed_config dup_second = {}"
    by (simp_all add: dup_second_def)
  have X: "ext dup_runner = disk_ext" "config dup_runner = Map.empty"
    by (simp_all add: dup_runner_def)
  show ?thesis
    by (simp add: ttr io X traversal_defs disk_ext_def eval_nat_numeral)
qed

subsection \<open>A cycle under \<open>run\<close>\<close>

lemma cyclic_target_to_rule:
  "target_to_rule (Runner cyclic_rules cfg X) ''a_out'' = Some cycA"
  "target_to_rule (Runner cyclic_rules cfg X) ''b_out'' = Some cycB"
  by (simp_all add: target_to_rule_find cyclic_rules_def cycA_def cycB_def)

lemma cyclic_fingerprints:
  "compute_run_fingerprint (Runner cyclic_rules cfg X) cycA = Inr (sha256 X (encode_utf8 ''A''))"
  "compute_run_fingerprint (Runner cyclic_rules cfg X) cycB = Inr (sha256 X (encode_utf8 ''B''))"
  by (simp_all add: compute_run_fingerprint_def fingerprint_message_def cycA_def cycB_def)

lemma cycle_never_ends:
  "already_evaluated s cycA = None \<Longrightarrow> already_evaluated s cycB = None \<Longrightarrow>
   (\<exists>s'. inner_run depth (Runner cyclic_rules cfg X) cycA s = (Inl RecursionError, s') \<and>
         db s' = db s) \<and>
   (\<exists>s'. inner_run depth (Runner cyclic_rules cfg X) cycB s = (Inl RecursionError, s') \<and>
         db s' = db s)"
proof (induction depth arbitrary: s)
  case 0
  show ?case by simp
next
  case (Suc depth)
  let ?rn = "Runner cyclic_rules cfg X"
  let ?sA = "emit (Fetch cycA (sha256 X (encode_utf8 ''A''))) s"
  let ?sB = "emit (Fetch cycB (sha256 X (encode_utf8 ''B''))) s"
  have inA: "resolved_inputs cycA = [''b_out'']" and inB: "resolved_inputs cycB = [''a_out'']"
    by (simp_all add: cycA_def cycB_def)
  from Suc.IH[of ?sA] Suc.prems obtain s1 where
    s1: "inner_run depth ?rn cycB ?sA = (Inl RecursionError, s1)" "db s1 = db s"
    by (auto simp: emit_def)
  from Suc.IH[of ?sB] Suc.prems obtain s2 where
    s2: "inner_run depth ?rn cycA ?sB = (Inl RecursionError, s2)" "db s2 = db s"
    by (auto simp: emit_def)
  have "inner_run (Suc depth) ?rn cycA s = (Inl RecursionError, s1)"
    using Suc.prems s1 by (simp add: cyclic_fingerprints cyclic_target_to_rule inA Let_def)
  moreover have "inner_run (Suc depth) ?rn cycB s = (Inl RecursionError, s2)"
    using Suc.prems s2 by (simp add: cyclic_fingerprints cyclic_target_to_rule inB Let_def)
  ultimately show ?case using s1 s2 by simp
qed

text \<open>
  C1 on the code. The claim says that \<open>run\<close> on a rule set with a cycle raises
  \<^verbatim>\<open>IsengardConsistencyError\<close> and leaves the store as it was. For the cycle of the
  specification, whatever the externals, the configuration, the store, the world and the
  recursion limit are, \<open>run\<close> on \<^verbatim>\<open>a_out\<close> recurses from \<^verbatim>\<open>A\<close> to \<^verbatim>\<open>B\<close> and back until the
  interpreter raises \<^verbatim>\<open>RecursionError\<close>; the store is indeed left as it was.
\<close>

theorem run_on_cycle_exhausts_recursion:
  "fst (run depth (Runner cyclic_rules cfg X) ''a_out'' st w) = Inl RecursionError \<and>
   db (snd (run depth (Runner cyclic_rules cfg X) ''a_out'' st w)) = st"
  using cycle_never_ends[of "init_state st w" depth cfg X]
  by (auto simp: run_def run_rule_def cyclic_target_to_rule init_state_def)

subsection \<open>Events and states\<close>

lemma emit_simps [simp]:
  "events (emit e s) = events s @ [e]"
  "db (emit e s) = db s"
  "world (emit e s) = world s"
  "already_evaluated (emit e s) = already_evaluated s"
  "targets_eval_cache (emit e s) = targets_eval_cache s"
  "already_cleaned (emit e s) = already_cleaned s"
  by (simp_all add: emit_def)

subsection \<open>The \<open>clean\<close> traversal stays within the reachable rules\<close>
lemma cleans_within_refl: "cleans_within rn r s s"
  by (simp add: cleans_within_def)

lemma cleans_within_trans:
  "cleans_within rn r s s1 \<Longrightarrow> cleans_within rn r s1 s2 \<Longrightarrow> cleans_within rn r s s2"
  by (fastforce simp: cleans_within_def)

lemma cleans_within_depends:
  "depends rn r q \<Longrightarrow> cleans_within rn q s s' \<Longrightarrow> cleans_within rn r s s'"
  unfolding cleans_within_def by (meson converse_rtranclp_into_rtranclp)

lemma cook_for_clean_events:
  "cook_for_clean rn r prev t s = (res, s') \<Longrightarrow>
   \<exists>es. events s' = events s @ es \<and> (\<forall>e \<in> set es. \<exists>p. e = Cook r t p) \<and>
     already_cleaned s' = already_cleaned s"
  by (auto simp: cook_for_clean_def split: option.splits sum.splits error.splits)

lemma clean_output_within:
  assumes "clean_output rn r prev t s = (res, s')" and "t \<in> set (resolved_outputs r)"
  shows "cleans_within rn r s s'"
proof -
  obtain res1 s1 where c: "cook_for_clean rn r prev t s = (res1, s1)" by force
  from cook_for_clean_events[OF c] obtain es where
    es: "events s1 = events s @ es" "\<forall>e \<in> set es. \<exists>p. e = Cook r t p" by blast
  from assms c have "\<exists>es'. events s' = events s1 @ es' \<and> (\<forall>q x e. Clean q x e \<in> set es' \<longrightarrow> q = r \<and> x = t)"
    by (auto simp: clean_output_def split: sum.splits prod.splits option.splits)
  then obtain es' where es': "events s' = events s1 @ es'" "\<forall>q x e. Clean q x e \<in> set es' \<longrightarrow> q = r \<and> x = t"
    by blast
  show ?thesis unfolding cleans_within_def
    using es es' assms(2) by (intro exI[of _ "es @ es'"]) auto
qed

lemma clean_outputs_within:
  "clean_outputs rn r prev ts s = (res, s') \<Longrightarrow> set ts \<subseteq> set (resolved_outputs r) \<Longrightarrow>
   cleans_within rn r s s'"
proof (induction ts arbitrary: s)
  case Nil
  then show ?case by (simp add: cleans_within_refl)
next
  case (Cons t ts)
  obtain res1 s1 where o: "clean_output rn r prev t s = (res1, s1)" by force
  have w1: "cleans_within rn r s s1" using clean_output_within[OF o] Cons.prems by simp
  show ?case
  proof (cases res1)
    case (Inl e)
    with Cons.prems o w1 show ?thesis by simp
  next
    case (Inr u)
    with Cons.prems o have "clean_outputs rn r prev ts s1 = (res, s')" by simp
    from Cons.IH[OF this] Cons.prems have "cleans_within rn r s1 s'" by simp
    with w1 show ?thesis by (rule cleans_within_trans)
  qed
qed

lemma clean_inputs_within:
  assumes rec: "\<And>q ps s res s'. depends rn r q \<Longrightarrow> rec q ps s = (res, s') \<Longrightarrow> cleans_within rn q s s'"
  shows "clean_inputs rec rn r parents ts s = (res, s') \<Longrightarrow> set ts \<subseteq> set (resolved_inputs r) \<Longrightarrow>
    cleans_within rn r s s'"
proof (induction ts arbitrary: s)
  case Nil
  then show ?case by (simp add: cleans_within_refl)
next
  case (Cons t ts)
  show ?case
  proof (cases "target_to_rule rn t")
    case None
    have e: "cleans_within rn r s (emit (GetHandler r t) s)"
      by (simp add: cleans_within_def)
    show ?thesis
    proof (cases "get_handler (ext rn) t")
      case (Inl err)
      with None Cons.prems e show ?thesis by (auto simp: Let_def)
    next
      case (Inr h)
      show ?thesis
      proof (cases "ON_DISK_TARGET (ext rn) h")
        case True
        with None Inr Cons.prems have "clean_inputs rec rn r parents ts (emit (GetHandler r t) s) = (res, s')"
          by (simp add: Let_def)
        from Cons.IH[OF this] Cons.prems e show ?thesis by (auto intro: cleans_within_trans)
      next
        case False
        with None Inr Cons.prems e show ?thesis by (auto simp: Let_def)
      qed
    qed
  next
    case (Some q)
    have dq: "depends rn r q" using Some Cons.prems by (auto simp: depends_def)
    show ?thesis
    proof (cases "q \<in> set (parents @ [r])")
      case True
      with Some Cons.prems show ?thesis by (auto simp: Let_def cleans_within_refl)
    next
      case False
      obtain res1 s1 where r1: "rec q (parents @ [r]) s = (res1, s1)" by force
      have w1: "cleans_within rn r s s1" using rec[OF dq r1] dq by (rule cleans_within_depends[rotated])
      show ?thesis
      proof (cases res1)
        case (Inl err)
        with Some False r1 Cons.prems w1 show ?thesis by (auto simp: Let_def)
      next
        case (Inr u)
        with Some False r1 Cons.prems have "clean_inputs rec rn r parents ts s1 = (res, s')"
          by (auto simp: Let_def)
        from Cons.IH[OF this] Cons.prems w1 show ?thesis by (auto intro: cleans_within_trans)
      qed
    qed
  qed
qed

lemma inner_clean_within:
  "inner_clean depth rn r parents s = (res, s') \<Longrightarrow> cleans_within rn r s s'"
proof (induction depth arbitrary: r parents s res s')
  case 0
  then show ?case by (simp add: cleans_within_refl)
next
  case (Suc depth)
  show ?case
  proof (cases "r \<in> already_cleaned s")
    case True
    with Suc.prems show ?thesis by (simp add: cleans_within_refl)
  next
    case False
    let ?s1 = "s\<lparr>already_cleaned := insert r (already_cleaned s)\<rparr>"
    have w1: "cleans_within rn r s ?s1" by (simp add: cleans_within_def)
    show ?thesis
    proof (cases "compute_run_fingerprint rn r")
      case (Inl e)
      with False Suc.prems w1 show ?thesis by (auto simp: Let_def)
    next
      case (Inr fp)
      let ?s2 = "emit (Fetch r fp) ?s1"
      let ?prev = "case fetch_rule_previous_run (db ?s2) fp of None \<Rightarrow> Map.empty | Some m \<Rightarrow> m"
      have w2: "cleans_within rn r s ?s2" by (simp add: cleans_within_def)
      obtain res3 s3 where o: "clean_outputs rn r ?prev (resolved_outputs r) ?s2 = (res3, s3)" by force
      have w3: "cleans_within rn r ?s2 s3" using clean_outputs_within[OF o] by simp
      show ?thesis
      proof (cases res3)
        case (Inl e)
        with False Inr o Suc.prems have "s' = s3" by (simp add: Let_def)
        with w2 w3 show ?thesis by (auto intro: cleans_within_trans)
      next
        case (Inr u)
        with False \<open>compute_run_fingerprint rn r = Inr fp\<close> o Suc.prems
        have i: "clean_inputs (inner_clean depth rn) rn r parents (resolved_inputs r) s3 = (res, s')"
          by (simp add: Let_def)
        have "cleans_within rn r s3 s'"
          using clean_inputs_within[where rec="inner_clean depth rn", OF _ i] Suc.IH by blast
        with w2 w3 show ?thesis by (auto intro: cleans_within_trans)
      qed
    qed
  qed
qed






lemma reachable_in_rules:
  assumes "(depends (Runner rs cfg X))\<^sup>*\<^sup>* r q" and "r \<in> snd ` set rs"
  shows "q \<in> snd ` set rs"
  using assms
  by (induction rule: rtranclp_induct) (auto simp: depends_def dest: target_to_rule_owner(1))

text \<open>
  C9. Whatever the rule set, the externals, the store and the world are, and however the
  traversal ends, every call of \<^verbatim>\<open>handler.clean\<close> that \<open>clean\<close> makes is made for a rule
  reachable from the rule of the requested target, on a target that this rule declares as
  an output; such a target has an owning rule, so an input that no rule produces is never
  cleaned.
\<close>

theorem clean_only_cleans_owned_outputs:
  assumes "clean depth (Runner rs cfg X) t st w = (res, s')"
    and "Clean q x e \<in> set (events s')"
  shows "(\<exists>r0. target_to_rule (Runner rs cfg X) t = Some r0 \<and> (depends (Runner rs cfg X))\<^sup>*\<^sup>* r0 q)
     \<and> x \<in> set (resolved_outputs q)
     \<and> target_to_rule (Runner rs cfg X) x \<noteq> None"
proof (cases "target_to_rule (Runner rs cfg X) t")
  case None
  with assms show ?thesis by (auto simp: clean_def init_state_def)
next
  case (Some r0)
  with assms(1) have "inner_clean depth (Runner rs cfg X) r0 [] (init_state st w) = (res, s')"
    by (simp add: clean_def)
  from inner_clean_within[OF this] assms(2)
  have reach: "(depends (Runner rs cfg X))\<^sup>*\<^sup>* r0 q" and out: "x \<in> set (resolved_outputs q)"
    by (auto simp: cleans_within_def init_state_def)
  have "q \<in> snd ` set rs"
    using reachable_in_rules[OF reach] target_to_rule_owner(1)[OF Some] by simp
  then have "target_to_rule (Runner rs cfg X) x \<noteq> None"
    using out by (rule target_to_rule_defined)
  with Some reach out show ?thesis by simp
qed

lemma build_target_to_rule:
  "target_to_rule build_runner ''app'' = Some build_B"
  "target_to_rule build_runner ''out.o'' = Some build_A"
  "target_to_rule build_runner ''src.txt'' = None"
  by (simp_all add: build_runner_def target_to_rule_find build_A_def build_B_def)

lemma build_fields:
  "resolved_inputs build_A = [''src.txt'']" "resolved_outputs build_A = [''out.o'']"
  "rule_id build_A = ''A''" "needed_config build_A = {}"
  "resolved_inputs build_B = [''out.o'']" "resolved_outputs build_B = [''app'']"
  "rule_id build_B = ''B''" "needed_config build_B = {''opt_level''}"
  "ext build_runner = disk_ext" "config build_runner = [''opt_level'' \<mapsto> 0]"
  "build_A \<noteq> build_B" "build_B \<noteq> build_A"
  by (simp_all add: build_A_def build_B_def build_runner_def)

lemma build_clean_events:
  "events (snd (clean 3 build_runner ''app'' Map.empty src_world)) =
     [Fetch build_B (pad32 [66, 0]), Cook build_B ''app'' None, Clean build_B ''app'' None,
      Fetch build_A (pad32 [65]), Cook build_A ''out.o'' None, Clean build_A ''out.o'' None,
      GetHandler build_A ''src.txt'']"
  by (simp add: build_target_to_rule build_fields traversal_defs disk_ext_def eval_nat_numeral)

theorem clean_only_cleans_owned_outputs_witness:
  "Clean build_A ''out.o'' None \<in> set (events (snd (clean 3 build_runner ''app'' Map.empty src_world)))
   \<and> (\<exists>r0. target_to_rule build_runner ''app'' = Some r0 \<and> (depends build_runner)\<^sup>*\<^sup>* r0 build_A)
   \<and> ''out.o'' \<in> set (resolved_outputs build_A)
   \<and> target_to_rule build_runner ''out.o'' \<noteq> None"
proof -
  have run: "clean 3 (Runner [(''A'', build_A), (''B'', build_B)] [''opt_level'' \<mapsto> 0] disk_ext)
      ''app'' Map.empty src_world =
    (fst (clean 3 build_runner ''app'' Map.empty src_world),
     snd (clean 3 build_runner ''app'' Map.empty src_world))"
    by (simp add: build_runner_def)
  have ev: "Clean build_A ''out.o'' None \<in> set (events (snd (clean 3 build_runner ''app'' Map.empty src_world)))"
    by (simp add: build_clean_events)
  from clean_only_cleans_owned_outputs[OF run ev] ev show ?thesis
    by (simp add: build_runner_def)
qed


subsection \<open>\<open>clean\<close> has cleaned every rule it entered when it finds a cycle\<close>
lemma cook_for_clean_frame:
  "cook_for_clean rn r prev t s = (res, s') \<Longrightarrow>
   set (events s) \<subseteq> set (events s') \<and> already_cleaned s' = already_cleaned s"
  by (auto simp: cook_for_clean_def split: option.splits sum.splits error.splits)

lemma cook_for_clean_error:
  "cook_for_clean rn r prev t s = (Inl err, s') \<Longrightarrow> \<exists>p w. cook_target (ext rn) t p w = Inl err"
  by (auto simp: cook_for_clean_def split: option.splits sum.splits error.splits)

lemma clean_output_done:
  assumes "clean_output rn r prev t s = (res, s')"
  shows "set (events s) \<subseteq> set (events s')" and "already_cleaned s' = already_cleaned s"
    and "res = Inr u \<Longrightarrow> Clean r t None \<in> set (events s')"
    and "res = Inl (IsengardConsistencyError c) \<Longrightarrow>
         \<exists>p w. cook_target (ext rn) t p w = Inl (IsengardConsistencyError c)"
proof -
  obtain res1 s1 where c: "cook_for_clean rn r prev t s = (res1, s1)" by force
  note f = cook_for_clean_frame[OF c]
  show "set (events s) \<subseteq> set (events s')" "already_cleaned s' = already_cleaned s"
    using assms c f by (auto simp: clean_output_def split: sum.splits prod.splits option.splits)
  show "res = Inr u \<Longrightarrow> Clean r t None \<in> set (events s')"
    using assms c by (auto simp: clean_output_def split: sum.splits prod.splits option.splits)
  show "res = Inl (IsengardConsistencyError c) \<Longrightarrow>
         \<exists>p w. cook_target (ext rn) t p w = Inl (IsengardConsistencyError c)"
    using assms c cook_for_clean_error[of rn r prev t s "IsengardConsistencyError c" s1]
    by (auto simp: clean_output_def split: sum.splits prod.splits option.splits)
qed

lemma clean_outputs_done:
  assumes "clean_outputs rn r prev ts s = (res, s')"
  shows "set (events s) \<subseteq> set (events s') \<and> already_cleaned s' = already_cleaned s \<and>
    (res = Inr u \<longrightarrow> (\<forall>t \<in> set ts. Clean r t None \<in> set (events s'))) \<and>
    (res = Inl (IsengardConsistencyError c) \<longrightarrow>
       (\<exists>t p w. cook_target (ext rn) t p w = Inl (IsengardConsistencyError c)))"
  using assms
proof (induction ts arbitrary: s)
  case Nil
  then show ?case by auto
next
  case (Cons t ts)
  obtain res1 s1 where o: "clean_output rn r prev t s = (res1, s1)" by force
  note d = clean_output_done[OF o]
  show ?case
  proof (cases res1)
    case (Inl e)
    with Cons.prems o have "res = Inl e" "s' = s1" by simp_all
    with d(1,2) d(4)[of c] Inl show ?thesis by auto
  next
    case (Inr v)
    with Cons.prems o have "clean_outputs rn r prev ts s1 = (res, s')" by simp
    from Cons.IH[OF this] d(1,2) d(3)[of "()"] Inr show ?thesis by auto
  qed
qed





lemma entered_rules_cleaned_mono:
  "entered_rules_cleaned s \<Longrightarrow> set (events s) \<subseteq> set (events s') \<Longrightarrow>
   already_cleaned s' = already_cleaned s \<Longrightarrow> entered_rules_cleaned s'"
  by (auto simp: entered_rules_cleaned_def)

lemma clean_inputs_entered:
  assumes rec: "\<And>q ps s res s'. rec q ps s = (res, s') \<Longrightarrow> entered_rules_cleaned s \<Longrightarrow>
      ok_or_cycle res \<Longrightarrow> entered_rules_cleaned s'"
  shows "clean_inputs rec rn r parents ts s = (res, s') \<Longrightarrow> entered_rules_cleaned s \<Longrightarrow>
    ok_or_cycle res \<Longrightarrow> entered_rules_cleaned s'"
proof (induction ts arbitrary: s)
  case Nil
  then show ?case by simp
next
  case (Cons t ts)
  show ?case
  proof (cases "target_to_rule rn t")
    case None
    have e: "entered_rules_cleaned (emit (GetHandler r t) s)"
      using Cons.prems(2) by (rule entered_rules_cleaned_mono) auto
    show ?thesis
    proof (cases "get_handler (ext rn) t")
      case (Inl err)
      with None Cons.prems e show ?thesis by (auto simp: Let_def)
    next
      case (Inr h)
      show ?thesis
      proof (cases "ON_DISK_TARGET (ext rn) h")
        case True
        with None Inr Cons.prems have "clean_inputs rec rn r parents ts (emit (GetHandler r t) s) = (res, s')"
          by (simp add: Let_def)
        from Cons.IH[OF this e Cons.prems(3)] show ?thesis .
      next
        case False
        with None Inr Cons.prems e show ?thesis by (auto simp: Let_def)
      qed
    qed
  next
    case (Some q)
    show ?thesis
    proof (cases "q \<in> set (parents @ [r])")
      case True
      with Some Cons.prems show ?thesis by (auto simp: Let_def)
    next
      case False
      obtain res1 s1 where r1: "rec q (parents @ [r]) s = (res1, s1)" by force
      show ?thesis
      proof (cases res1)
        case (Inl err)
        with Some False r1 Cons.prems have "res = res1" "s' = s1" by (auto simp: Let_def)
        with rec[OF r1 Cons.prems(2)] Cons.prems(3) show ?thesis by simp
      next
        case (Inr u)
        with Some False r1 Cons.prems have i: "clean_inputs rec rn r parents ts s1 = (res, s')"
          by (auto simp: Let_def)
        have "entered_rules_cleaned s1" using rec[OF r1 Cons.prems(2)] Inr by (simp add: ok_or_cycle_def)
        from Cons.IH[OF i this Cons.prems(3)] show ?thesis .
      qed
    qed
  qed
qed

lemma inner_clean_entered:
  assumes "no_cook_consistency_error rn"
  shows "inner_clean depth rn r parents s = (res, s') \<Longrightarrow> entered_rules_cleaned s \<Longrightarrow>
    ok_or_cycle res \<Longrightarrow> entered_rules_cleaned s'"
proof (induction depth arbitrary: r parents s res s')
  case 0
  then show ?case by (simp add: ok_or_cycle_def)
next
  case (Suc depth)
  show ?case
  proof (cases "r \<in> already_cleaned s")
    case True
    with Suc.prems show ?thesis by simp
  next
    case False
    let ?s1 = "s\<lparr>already_cleaned := insert r (already_cleaned s)\<rparr>"
    show ?thesis
    proof (cases "compute_run_fingerprint rn r")
      case (Inl e)
      then have "\<exists>k. e = KeyError k"
        by (auto simp: compute_run_fingerprint_def fingerprint_message_def update_config_find
            split: sum.splits option.splits)
      with Inl False Suc.prems show ?thesis by (auto simp: Let_def ok_or_cycle_def)
    next
      case (Inr fp)
      let ?s2 = "emit (Fetch r fp) ?s1"
      let ?prev = "case fetch_rule_previous_run (db ?s2) fp of None \<Rightarrow> Map.empty | Some m \<Rightarrow> m"
      obtain res3 s3 where o: "clean_outputs rn r ?prev (resolved_outputs r) ?s2 = (res3, s3)" by force
      show ?thesis
      proof (cases res3)
        case (Inl e)
        with False Inr o Suc.prems have "res = Inl e" by (simp add: Let_def)
        with Suc.prems(3) obtain c where "e = IsengardConsistencyError c"
          by (auto simp: ok_or_cycle_def split: error.splits)
        with clean_outputs_done[OF o, of "()" c] Inl assms show ?thesis
          by (auto simp: no_cook_consistency_error_def)
      next
        case (Inr u)
        with False \<open>compute_run_fingerprint rn r = Inr fp\<close> o Suc.prems
        have i: "clean_inputs (inner_clean depth rn) rn r parents (resolved_inputs r) s3 = (res, s')"
          by (simp add: Let_def)
        from clean_outputs_done[OF o, of u] Inr
        have d: "set (events ?s2) \<subseteq> set (events s3)" "already_cleaned s3 = already_cleaned ?s2"
          "\<forall>t \<in> set (resolved_outputs r). Clean r t None \<in> set (events s3)" by auto
        have "entered_rules_cleaned s3"
          using Suc.prems(2) d by (auto simp: entered_rules_cleaned_def)
        with clean_inputs_entered[where rec="inner_clean depth rn", OF _ i] Suc.IH Suc.prems(3)
        show ?thesis by blast
      qed
    qed
  qed
qed

text \<open>
  C10. When \<open>clean\<close> raises \<^verbatim>\<open>IsengardConsistencyError\<close> (and \<^verbatim>\<open>cook_target\<close> is not what raised
  it), every rule that the traversal has entered, the members of \<^verbatim>\<open>already_cleaned\<close>, has had
  \<^verbatim>\<open>handler.clean\<close> called, without an exception, on each of its outputs: the effects of
  these calls on the world are in the state that the error leaves behind.
\<close>

theorem clean_cycle_error_after_cleaning:
  assumes "clean depth rn t st w = (Inl (IsengardConsistencyError chain), s')"
    and "no_cook_consistency_error rn"
  shows "\<forall>q \<in> already_cleaned s'. \<forall>x \<in> set (resolved_outputs q). Clean q x None \<in> set (events s')"
proof (cases "target_to_rule rn t")
  case None
  with assms show ?thesis by (auto simp: clean_def)
next
  case (Some r0)
  with assms(1) have "inner_clean depth rn r0 [] (init_state st w) = (Inl (IsengardConsistencyError chain), s')"
    by (simp add: clean_def)
  from inner_clean_entered[OF assms(2) this]
  have "entered_rules_cleaned s'" by (simp add: entered_rules_cleaned_def init_state_def ok_or_cycle_def)
  then show ?thesis by (simp add: entered_rules_cleaned_def)
qed

lemma cyclic_clean:
  "clean 3 (Runner cyclic_rules Map.empty disk_ext) ''a_out'' Map.empty Map.empty =
    (Inl (IsengardConsistencyError [''A'', ''B'']),
     \<lparr>db = Map.empty, world = Map.empty, already_evaluated = Map.empty,
      targets_eval_cache = Map.empty, already_cleaned = {cycB, cycA},
      events = [Fetch cycA (pad32 [65]), Cook cycA ''a_out'' None, Clean cycA ''a_out'' None,
                Fetch cycB (pad32 [66]), Cook cycB ''b_out'' None, Clean cycB ''b_out'' None]\<rparr>)"
proof -
  have f: "resolved_inputs cycA = [''b_out'']" "resolved_outputs cycA = [''a_out'']"
    "rule_id cycA = ''A''" "needed_config cycA = {}"
    "resolved_inputs cycB = [''a_out'']" "resolved_outputs cycB = [''b_out'']"
    "rule_id cycB = ''B''" "needed_config cycB = {}" "cycA \<noteq> cycB" "cycB \<noteq> cycA"
    by (simp_all add: cycA_def cycB_def)
  show ?thesis
    by (simp add: cyclic_target_to_rule f traversal_defs disk_ext_def eval_nat_numeral)
qed

theorem clean_cycle_error_after_cleaning_witness:
  "fst (clean 3 (Runner cyclic_rules Map.empty disk_ext) ''a_out'' Map.empty Map.empty) =
     Inl (IsengardConsistencyError [''A'', ''B''])
   \<and> no_cook_consistency_error (Runner cyclic_rules Map.empty disk_ext)
   \<and> already_cleaned (snd (clean 3 (Runner cyclic_rules Map.empty disk_ext) ''a_out'' Map.empty Map.empty)) = {cycB, cycA}
   \<and> Clean cycA ''a_out'' None \<in> set (events (snd (clean 3 (Runner cyclic_rules Map.empty disk_ext) ''a_out'' Map.empty Map.empty)))
   \<and> Clean cycB ''b_out'' None \<in> set (events (snd (clean 3 (Runner cyclic_rules Map.empty disk_ext) ''a_out'' Map.empty Map.empty)))"
proof -
  have nc: "no_cook_consistency_error (Runner cyclic_rules Map.empty disk_ext)"
    by (simp add: no_cook_consistency_error_def disk_ext_def)
  have o: "resolved_outputs cycA = [''a_out'']" "resolved_outputs cycB = [''b_out'']"
    by (simp_all add: cycA_def cycB_def)
  from clean_cycle_error_after_cleaning[OF cyclic_clean nc] nc show ?thesis
    by (simp add: cyclic_clean o)
qed

end
